theory Spec2Isabelle
  imports Main
begin

section \<open>Errors\<close>

text \<open>
  The program raises a plain exception with a message at every failure site.  Each
  constructor below stands for one raise site (or one family of sites sharing a message);
  the names follow the error taxonomy of the specification where it has one.
  \<open>KeyError\<close> and \<open>IndexError\<close> are the interpreter's own exceptions for a missing
  dictionary key and an out-of-range list index.
\<close>

datatype error =
    InvalidDigitStart
  | InvalidCharacter char
  | InvalidInstruction
  | DuplicateName
  | ReservedName
  | TooManyVariables
  | UnknownIdentifier
  | InvalidAssignment
  | EmptyParentheses
  | UnbalancedParentheses
  | UnmatchedParenthesis
  | InvalidSyntax
  | OperatorConflict
  | InvalidToken
  | MalformedNode
  | AlreadyExists
  | KeyError
  | IndexError

section \<open>Lexer\<close>

definition newline :: char where
  "newline = CHR 0x0A"

text \<open>
  \<open>re.sub(r"#.*\n", "", s)\<close>: every stretch from a \<open>#\<close> up to and including the next
  newline is removed.  The dot does not match a newline, and the pattern needs its final
  newline, so a \<open>#\<close> with no newline after it matches nothing and stays in the text.
\<close>

function strip_comments :: "string \<Rightarrow> string" where
  "strip_comments [] = []"
| "strip_comments (c # cs) =
     (if c = CHR ''#'' \<and> newline \<in> set cs
      then strip_comments (tl (dropWhile (\<lambda>x. x \<noteq> newline) cs))
      else c # strip_comments cs)"
  by pat_completeness auto
termination
  by (relation "measure length") (auto simp: less_Suc_eq_le intro: le_trans [OF diff_le_self length_dropWhile_le])

definition is_letter :: "char \<Rightarrow> bool" where
  "is_letter c =
     (let n = (of_char c :: nat)
      in (65 \<le> n \<and> n \<le> 90) \<or> (97 \<le> n \<and> n \<le> 122) \<or> n = 95)"

definition is_digit :: "char \<Rightarrow> bool" where
  "is_digit c = (let n = (of_char c :: nat) in 48 \<le> n \<and> n \<le> 57)"

definition is_blank :: "char \<Rightarrow> bool" where
  "is_blank c = (c = CHR '' '' \<or> c = CHR 0x09 \<or> c = CHR 0x0A \<or> c = CHR 0x0D)"

definition is_special :: "char \<Rightarrow> bool" where
  "is_special c = (c = CHR ''('' \<or> c = CHR '')'' \<or> c = CHR ''='' \<or> c = CHR '';'')"

text \<open>
  The character loop of \<open>_tokenize\<close>, with its two variables \<open>tokens\<close> and \<open>word\<close>.
  The branches are tried in the order of the source.  When the text ends, the tokens are
  returned as they are: a word still being read is not appended.
\<close>

fun tokenize_loop :: "string list \<Rightarrow> string \<Rightarrow> string \<Rightarrow> error + string list" where
  "tokenize_loop tokens word [] = Inr tokens"
| "tokenize_loop tokens word (c # cs) =
     (if is_letter c \<and> word = [] then tokenize_loop tokens (word @ [c]) cs
      else if is_digit c \<and> word = [] then Inl InvalidDigitStart
      else if (is_letter c \<or> is_digit c) \<and> word \<noteq> [] then tokenize_loop tokens (word @ [c]) cs
      else if is_blank c then
        (if word \<noteq> [] then tokenize_loop (tokens @ [word]) [] cs
         else tokenize_loop tokens word cs)
      else if is_special c then
        (if word \<noteq> [] then tokenize_loop (tokens @ [word] @ [[c]]) [] cs
         else tokenize_loop (tokens @ [[c]]) word cs)
      else Inl (InvalidCharacter c))"

definition tokenize :: "string \<Rightarrow> error + string list" where
  "tokenize s = tokenize_loop [] [] (strip_comments s)"

section \<open>Instruction splitter\<close>

text \<open>
  \<open>_split_instructions\<close>: the buffer is appended to the instructions at every \<open>;\<close>.
  After the last token the buffer is dropped.
\<close>

fun split_loop :: "string list list \<Rightarrow> string list \<Rightarrow> string list \<Rightarrow> string list list" where
  "split_loop instructions buffer [] = instructions"
| "split_loop instructions buffer (t # ts) =
     (if t = '';'' then split_loop (instructions @ [buffer]) [] ts
      else split_loop instructions (buffer @ [t]) ts)"

definition split_instructions :: "string list \<Rightarrow> string list list" where
  "split_instructions tokens = split_loop [] [] tokens"

section \<open>Boolean-expression validator\<close>

text \<open>
  The inner \<open>for j\<close> loop that both the validator and the tree builder run after an
  opening parenthesis at index \<open>i\<close>: it counts \<open>open_parens\<close> from the token after
  the parenthesis and stops at the first index \<open>j\<close> where the count is zero.  The
  result is the pair of slices \<open>expr[i+1:j]\<close> and \<open>expr[j+1:]\<close>; \<open>None\<close> when the loop
  ends without reaching zero.
\<close>

fun find_closing :: "int \<Rightarrow> string list \<Rightarrow> (string list \<times> string list) option" where
  "find_closing open_parens [] = None"
| "find_closing open_parens (t # ts) =
     (let n = (if t = ''('' then open_parens + 1
               else if t = '')'' then open_parens - 1
               else open_parens)
      in if n = 0 then Some ([], ts)
         else (case find_closing n ts of
                 None \<Rightarrow> None
               | Some (inner, rest) \<Rightarrow> Some (t # inner, rest)))"

lemma find_closing_length:
  "find_closing n ts = Some (inner, rest) \<Longrightarrow> length inner + length rest < length ts"
  by (induction ts arbitrary: n inner)
     (auto simp: Let_def split: if_splits option.splits)

text \<open>
  \<open>check_valid\<close>: the \<open>while\<close> loop over the tokens of one flat level, with its
  variables \<open>running\<close> (\<open>-1\<close> at the start, \<open>0\<close> after an operand, \<open>1\<close> after
  \<open>and\<close>/\<open>or\<close>, \<open>2\<close> after \<open>not\<close>) and \<open>clause\<close> (the connective seen so far).
  A parenthesised group is checked by a recursive call that starts afresh and then
  counts as an operand.
\<close>

function check_valid_loop ::
  "string list \<Rightarrow> string list \<Rightarrow> int \<Rightarrow> string option \<Rightarrow> string list \<Rightarrow> error + unit" where
  "check_valid_loop declared_vars declared_ids running clause [] =
     (if running > 0 then Inl InvalidAssignment else Inr ())"
| "check_valid_loop declared_vars declared_ids running clause (token # ts) =
     (if token = ''('' then
        (if running = 0 then Inl InvalidAssignment
         else (case find_closing 1 ts of
                 None \<Rightarrow> Inl UnbalancedParentheses
               | Some (inner, rest) \<Rightarrow>
                   if inner = [] then Inl EmptyParentheses
                   else (case check_valid_loop declared_vars declared_ids (- 1) None inner of
                           Inl e \<Rightarrow> Inl e
                         | Inr u \<Rightarrow> check_valid_loop declared_vars declared_ids 0 clause rest)))
      else if token = '')'' then Inl UnmatchedParenthesis
      else if token \<in> set declared_vars \<or> token \<in> set declared_ids
              \<or> token = ''True'' \<or> token = ''False'' then
        (if running = 0 then Inl InvalidSyntax
         else check_valid_loop declared_vars declared_ids 0 clause ts)
      else if token = ''not'' then
        (if running \<noteq> - 1 then Inl InvalidSyntax
         else if clause \<noteq> None \<and> clause \<noteq> Some token then Inl OperatorConflict
         else check_valid_loop declared_vars declared_ids 2 (Some token) ts)
      else if token = ''and'' \<or> token = ''or'' then
        (if running \<noteq> 0 then Inl InvalidSyntax
         else if clause \<noteq> None \<and> clause \<noteq> Some token then Inl OperatorConflict
         else check_valid_loop declared_vars declared_ids 1 (Some token) ts)
      else Inl InvalidToken)"
  by pat_completeness auto
termination
  by (relation "measure (\<lambda>(vs, is, r, c, ts). length ts)")
     (auto dest: find_closing_length)

definition check_valid :: "string list \<Rightarrow> string list \<Rightarrow> string list \<Rightarrow> error + unit" where
  "check_valid expr declared_vars declared_ids =
     check_valid_loop declared_vars declared_ids (- 1) None expr"

definition check_valid_recursively ::
  "string list \<Rightarrow> string list \<Rightarrow> string list \<Rightarrow> error + unit" where
  "check_valid_recursively expr declared_vars declared_ids =
     check_valid expr declared_vars declared_ids"

section \<open>Grammar validator\<close>

definition reserved_names :: "string list" where
  "reserved_names =
     [''('', '')'', ''and'', ''or'', ''not'', ''True'', ''False'',
      ''var'', ''show'', ''show_ones'', ''='']"

text \<open>
  The loop over the names of a declaration.  The checks come in the order of the source:
  already declared, then reserved, then the name is appended and the total is compared
  with 64.
\<close>

fun check_declaration :: "string list \<Rightarrow> string list \<Rightarrow> string list \<Rightarrow> error + string list" where
  "check_declaration declared_vars declared_ids [] = Inr declared_vars"
| "check_declaration declared_vars declared_ids (t # ts) =
     (if t \<in> set declared_vars \<or> t \<in> set declared_ids then Inl DuplicateName
      else if t \<in> set reserved_names then Inl ReservedName
      else if length (declared_vars @ [t]) > 64 then Inl TooManyVariables
      else check_declaration (declared_vars @ [t]) declared_ids ts)"

fun check_display :: "string list \<Rightarrow> string list \<Rightarrow> string list \<Rightarrow> error + unit" where
  "check_display declared_vars declared_ids [] = Inr ()"
| "check_display declared_vars declared_ids (t # ts) =
     (if (t \<notin> set declared_ids \<and> t \<notin> set declared_vars)
         \<or> t \<in> set [''('', '')'', ''and'', ''or'', ''not'', ''True'', ''False'']
      then Inl UnknownIdentifier
      else check_display declared_vars declared_ids ts)"

text \<open>
  One pass of the \<open>for instr in instructions\<close> loop: the instruction is classified by
  its first tokens and checked; the result is the new pair of declared variables and
  declared identifiers.
\<close>

definition check_instruction ::
  "string list \<times> string list \<Rightarrow> string list \<Rightarrow> error + (string list \<times> string list)" where
  "check_instruction st instr =
     (case st of (declared_vars, declared_ids) \<Rightarrow>
        if length instr < 2 then Inl InvalidInstruction
        else if hd instr = ''var'' then
          (case check_declaration declared_vars declared_ids (tl instr) of
             Inl e \<Rightarrow> Inl e
           | Inr vs \<Rightarrow> Inr (vs, declared_ids))
        else if length instr \<ge> 3 \<and> instr ! 1 = ''='' then
          (if hd instr \<in> set declared_vars \<or> hd instr \<in> set declared_ids
           then Inl DuplicateName
           else (case check_valid_recursively (drop 2 instr) declared_vars declared_ids of
                   Inl e \<Rightarrow> Inl e
                 | Inr u \<Rightarrow> Inr (declared_vars, declared_ids @ [hd instr])))
        else if hd instr = ''show'' \<or> hd instr = ''show_ones'' then
          (case check_display declared_vars declared_ids (tl instr) of
             Inl e \<Rightarrow> Inl e
           | Inr u \<Rightarrow> Inr (declared_vars, declared_ids))
        else Inl InvalidInstruction)"

fun check_loop ::
  "string list \<times> string list \<Rightarrow> string list list \<Rightarrow> error + (string list \<times> string list)" where
  "check_loop st [] = Inr st"
| "check_loop st (instr # rest) =
     (case check_instruction st instr of
        Inl e \<Rightarrow> Inl e
      | Inr st' \<Rightarrow> check_loop st' rest)"

definition check_instructions :: "string list list \<Rightarrow> error + string list list" where
  "check_instructions instructions =
     (case check_loop ([], []) instructions of
        Inl e \<Rightarrow> Inl e
      | Inr st \<Rightarrow> Inr instructions)"

section \<open>Expression trees\<close>

text \<open>
  A \<open>Node\<close> has a \<open>value\<close> (a token) and a list of \<open>children\<close>.  Its depth is 0
  without children and otherwise one more than the least depth among the children.
\<close>

datatype node = Node string "node list"

fun depth :: "node \<Rightarrow> nat" where
  "depth (Node v cs) = (if cs = [] then 0 else 1 + min_list (map depth cs))"

text \<open>
  \<open>build_tree\<close>: the \<open>while\<close> loop over one flat level with its variables
  \<open>children\<close> and \<open>node_type\<close>.  Unlike the validator it has no check after the search
  for a closing parenthesis: when none is found the loop goes on with the next token.
  After the loop the children are sorted by depth (a stable sort) and either wrapped in
  an operator node or, without a connective, the first child is returned (an
  \<open>IndexError\<close> when there is none).
\<close>

function build_tree_loop :: "node list \<Rightarrow> string option \<Rightarrow> string list \<Rightarrow> error + node" where
  "build_tree_loop children node_type [] =
     (let sorted_children = sort_key depth children
      in (case node_type of
            Some ty \<Rightarrow> Inr (Node ty sorted_children)
          | None \<Rightarrow>
              (case sorted_children of
                 [] \<Rightarrow> Inl IndexError
               | c # cs \<Rightarrow> Inr c)))"
| "build_tree_loop children node_type (token # ts) =
     (if token = ''('' then
        (case find_closing 1 ts of
           None \<Rightarrow> build_tree_loop children node_type ts
         | Some (inner, rest) \<Rightarrow>
             if inner = [] then Inl EmptyParentheses
             else (case build_tree_loop [] None inner of
                     Inl e \<Rightarrow> Inl e
                   | Inr n \<Rightarrow> build_tree_loop (children @ [n]) node_type rest))
      else if token = '')'' then Inl UnmatchedParenthesis
      else if token = ''not'' \<or> token = ''and'' \<or> token = ''or'' then
        (if node_type \<noteq> None \<and> node_type \<noteq> Some token then Inl OperatorConflict
         else build_tree_loop children
                (if node_type = None then Some token else node_type) ts)
      else build_tree_loop (children @ [Node token []]) node_type ts)"
  by pat_completeness auto
termination
  by (relation "measure (\<lambda>(cs, ty, ts). length ts)")
     (auto dest: find_closing_length)

definition build_tree :: "string list \<Rightarrow> error + node" where
  "build_tree expr = build_tree_loop [] None expr"

definition build_tree_recursively :: "string list \<Rightarrow> error + node" where
  "build_tree_recursively expr = build_tree expr"

section \<open>Evaluator\<close>

text \<open>
  A dictionary with string keys, in insertion order: storing under a key that is present
  replaces the value where it stands, storing under a new key appends.
\<close>

type_synonym 'v dict = "(string \<times> 'v) list"

fun dict_set :: "string \<Rightarrow> 'v \<Rightarrow> 'v dict \<Rightarrow> 'v dict" where
  "dict_set k v [] = [(k, v)]"
| "dict_set k v ((k', v') # d) =
     (if k = k' then (k, v) # d else (k', v') # dict_set k v d)"

definition dict_of :: "(string \<times> 'v) list \<Rightarrow> 'v dict" where
  "dict_of kvs = fold (\<lambda>(k, v) d. dict_set k v d) kvs []"

text \<open>
  \<open>Node.eval\<close>.  The loops over the children of \<open>and\<close> and \<open>or\<close> return at the
  first child that decides the result, so later children are not evaluated.  A leaf that
  is not a literal is looked up in the dictionary (\<open>KeyError\<close> when absent).
\<close>

fun eval_node :: "bool dict \<Rightarrow> node \<Rightarrow> error + bool"
  and eval_and :: "bool dict \<Rightarrow> node list \<Rightarrow> error + bool"
  and eval_or :: "bool dict \<Rightarrow> node list \<Rightarrow> error + bool" where
  "eval_node variables (Node v cs) =
     (if v = ''and'' then
        (if length cs < 2 then Inl MalformedNode else eval_and variables cs)
      else if v = ''or'' then
        (if length cs < 2 then Inl MalformedNode else eval_or variables cs)
      else if v = ''not'' then
        (case cs of
           [] \<Rightarrow> Inl MalformedNode
         | c # rest \<Rightarrow>
             (case eval_node variables c of
                Inl e \<Rightarrow> Inl e
              | Inr b \<Rightarrow> Inr (\<not> b)))
      else if v = ''True'' then Inr True
      else if v = ''False'' then Inr False
      else (case map_of variables v of
              None \<Rightarrow> Inl KeyError
            | Some b \<Rightarrow> Inr b))"
| "eval_and variables [] = Inr True"
| "eval_and variables (c # cs) =
     (case eval_node variables c of
        Inl e \<Rightarrow> Inl e
      | Inr b \<Rightarrow> if \<not> b then Inr False else eval_and variables cs)"
| "eval_or variables [] = Inr False"
| "eval_or variables (c # cs) =
     (case eval_node variables c of
        Inl e \<Rightarrow> Inl e
      | Inr b \<Rightarrow> if b then Inr True else eval_or variables cs)"

section \<open>Truth-table driver\<close>

fun join :: "string list \<Rightarrow> string" where
  "join [] = []"
| "join [x] = x"
| "join (x # y # ys) = x @ '' '' @ join (y # ys)"

definition header :: "string list \<Rightarrow> string list \<Rightarrow> string" where
  "header vars ids_to_show = ''#'' @ '' '' @ join vars @ ''   '' @ join ids_to_show"

definition cell :: "bool \<Rightarrow> string" where
  "cell b = (if b then '' 1'' else '' 0'')"

text \<open>
  \<open>itertools.product([False, True], repeat=n)\<close> as a list: all tuples of length \<open>n\<close>,
  the last position varying fastest.
\<close>

definition product_bools :: "nat \<Rightarrow> bool list list" where
  "product_bools n = product_lists (replicate n [False, True])"

text \<open>The loop \<open>for id in self.ids.keys(): vars[id] = self.ids[id].eval(vars)\<close>.\<close>

fun eval_ids :: "node dict \<Rightarrow> bool dict \<Rightarrow> error + bool dict" where
  "eval_ids [] variables = Inr variables"
| "eval_ids ((name, tree) # rest) variables =
     (case eval_node variables tree of
        Inl e \<Rightarrow> Inl e
      | Inr b \<Rightarrow> eval_ids rest (dict_set name b variables))"

text \<open>
  The loop over \<open>ids_to_show\<close>: each requested name adds a cell to the row, and a true
  value makes the row valid.
\<close>

fun show_requested :: "bool dict \<Rightarrow> string list \<Rightarrow> string \<Rightarrow> bool \<Rightarrow> error + (string \<times> bool)" where
  "show_requested variables [] row valid_row = Inr (row, valid_row)"
| "show_requested variables (name # rest) row valid_row =
     (case map_of variables name of
        None \<Rightarrow> Inl KeyError
      | Some b \<Rightarrow>
          show_requested variables rest (row @ cell b)
            (if b \<and> \<not> valid_row then True else valid_row))"

text \<open>
  The body of the \<open>while\<close> loop of \<open>_show\<close> for one tuple of values: the row that is
  printed (\<open>Some\<close>), no row (\<open>None\<close>), or the exception that ends the run.
\<close>

definition show_row ::
  "string list \<Rightarrow> node dict \<Rightarrow> string list \<Rightarrow> bool \<Rightarrow> bool list \<Rightarrow> error + string option" where
  "show_row vars ids ids_to_show show_ones values =
     (let variables = dict_of (zip vars values);
          row = '' '' @ concat (map (\<lambda>(v, b). cell b) variables) @ ''  ''
      in (case eval_ids ids variables of
            Inl e \<Rightarrow> Inl e
          | Inr variables' \<Rightarrow>
              (case show_requested variables' ids_to_show row (\<not> show_ones) of
                 Inl e \<Rightarrow> Inl e
               | Inr (row', valid_row) \<Rightarrow> Inr (if valid_row then Some row' else None))))"

text \<open>
  The \<open>while i < 2**n\<close> loop.  The lines printed so far are kept in \<open>out\<close>; the result
  is the printed lines and the exception raised, if any.
\<close>

function show_loop ::
  "string list \<Rightarrow> node dict \<Rightarrow> string list \<Rightarrow> bool \<Rightarrow> bool list list \<Rightarrow> nat \<Rightarrow> nat \<Rightarrow>
   string list \<Rightarrow> string list \<times> error option" where
  "show_loop vars ids ids_to_show show_ones vars_value n i out =
     (if i < 2 ^ n then
        (case show_row vars ids ids_to_show show_ones (vars_value ! i) of
           Inl e \<Rightarrow> (out, Some e)
         | Inr None \<Rightarrow> show_loop vars ids ids_to_show show_ones vars_value n (i + 1) out
         | Inr (Some row) \<Rightarrow>
             show_loop vars ids ids_to_show show_ones vars_value n (i + 1) (out @ [row]))
      else (out, None))"
  by pat_completeness auto
termination
  by (relation "measure (\<lambda>(vars, ids, req, so, vv, n, i, out). 2 ^ n - i)") auto

declare show_loop.simps [simp del]

definition show_table ::
  "string list \<Rightarrow> node dict \<Rightarrow> string list \<Rightarrow> bool \<Rightarrow> string list \<Rightarrow> string list \<times> error option" where
  "show_table vars ids ids_to_show show_ones out =
     show_loop vars ids ids_to_show show_ones (product_bools (length vars)) (length vars) 0
       (out @ [header vars ids_to_show])"

section \<open>Executing instructions\<close>

text \<open>
  \<open>_execute_instructions\<close>, with the compiler's fields \<open>vars\<close> and \<open>ids\<close> and the
  lines printed so far passed along.  The branches index the instruction as the source
  does (\<open>i[0]\<close>, then \<open>i[1]\<close>), so an instruction that is too short raises
  \<open>IndexError\<close>.
\<close>

fun execute_instructions ::
  "string list \<Rightarrow> node dict \<Rightarrow> string list \<Rightarrow> string list list \<Rightarrow> string list \<times> error option" where
  "execute_instructions vars ids out [] = (out, None)"
| "execute_instructions vars ids out (i # rest) =
     (if i = [] then (out, Some IndexError)
      else if hd i = ''var'' then
        execute_instructions (vars @ takeWhile (\<lambda>t. t \<noteq> '';'') (tl i)) ids out rest
      else if length i < 2 then (out, Some IndexError)
      else if i ! 1 = ''='' then
        (if hd i \<notin> set vars \<and> hd i \<notin> fst ` set ids then
           (case build_tree_recursively (drop 2 i) of
              Inl e \<Rightarrow> (out, Some e)
            | Inr tree \<Rightarrow> execute_instructions vars (dict_set (hd i) tree ids) out rest)
         else (out, Some AlreadyExists))
      else if hd i = ''show'' \<or> hd i = ''show_ones'' then
        (case show_table vars ids (tl i) (hd i = ''show_ones'') out of
           (out', Some e) \<Rightarrow> (out', Some e)
         | (out', None) \<Rightarrow> execute_instructions vars ids out' rest)
      else (out, Some InvalidInstruction))"

section \<open>The compiler\<close>

text \<open>
  \<open>compile\<close>: tokenize, split, check, execute.  The result is the list of lines printed
  and the exception that ended the run, if any.  The model is the run with \<open>verbose\<close>
  off, as the program's entry point calls it: then \<open>_show\<close> is the only function that
  prints.
\<close>

definition compile :: "string \<Rightarrow> string list \<times> error option" where
  "compile f =
     (case tokenize f of
        Inl e \<Rightarrow> ([], Some e)
      | Inr tokens \<Rightarrow>
          (case check_instructions (split_instructions tokens) of
             Inl e \<Rightarrow> ([], Some e)
           | Inr instructions \<Rightarrow> execute_instructions [] [] [] instructions))"

section \<open>Classes of inputs\<close>

text \<open>
  A list of names that a declaration accepts after \<open>declared_vars\<close> and
  \<open>declared_ids\<close>: pairwise distinct, none declared before, none reserved, and at most
  64 variables in total.
\<close>

definition fresh_names :: "string list \<Rightarrow> string list \<Rightarrow> string list \<Rightarrow> bool" where
  "fresh_names declared_vars declared_ids names =
     (distinct names
      \<and> list_all (\<lambda>t. t \<notin> set declared_vars \<and> t \<notin> set declared_ids
                      \<and> t \<notin> set reserved_names) names
      \<and> length declared_vars + length names \<le> 64)"








text \<open>
  At least one requested name is true on the row for \<open>values\<close>: the names are resolved
  as the driver resolves them, in the dictionary that holds the variables and then every
  identifier.
\<close>

definition requested_true :: "string list \<Rightarrow> node dict \<Rightarrow> string list \<Rightarrow> bool list \<Rightarrow> bool" where
  "requested_true vars ids ids_to_show values =
     (case eval_ids ids (dict_of (zip vars values)) of
        Inl e \<Rightarrow> False
      | Inr variables \<Rightarrow> list_ex (\<lambda>name. map_of variables name = Some True) ids_to_show)"

text \<open>
  The \<open>n\<close> binary digits of \<open>i\<close>, most significant first: digit \<open>k\<close> belongs to the
  \<open>k\<close>-th declared variable, and the last variable is the one that changes with every
  step of \<open>i\<close>.
\<close>

definition binary_digits :: "nat \<Rightarrow> nat \<Rightarrow> bool list" where
  "binary_digits n i = map (\<lambda>k. odd (i div 2 ^ (n - 1 - k))) [0..<n]"

text \<open>
  A tree that the evaluator can reduce when the names in \<open>bound\<close> are in the
  dictionary: \<open>and\<close>/\<open>or\<close> nodes have two children or more, a \<open>not\<close> node has a
  first child, and every other leaf is a literal or a bound name.  The identifier table is
  well formed when each tree is, over the variables and the identifiers before it; the
  table of a display instruction also needs every requested name to be a variable or an
  identifier.
\<close>

fun well_formed_node :: "string list \<Rightarrow> node \<Rightarrow> bool" where
  "well_formed_node bound (Node v cs) =
     (if v = ''and'' \<or> v = ''or'' then 2 \<le> length cs \<and> list_all (well_formed_node bound) cs
      else if v = ''not'' then (case cs of [] \<Rightarrow> False | c # rest \<Rightarrow> well_formed_node bound c)
      else v = ''True'' \<or> v = ''False'' \<or> v \<in> set bound)"

fun well_formed_ids :: "string list \<Rightarrow> node dict \<Rightarrow> bool" where
  "well_formed_ids bound [] = True"
| "well_formed_ids bound ((name, tree) # rest) =
     (well_formed_node bound tree \<and> well_formed_ids (bound @ [name]) rest)"

definition well_formed_table :: "string list \<Rightarrow> node dict \<Rightarrow> string list \<Rightarrow> bool" where
  "well_formed_table vars ids ids_to_show =
     (well_formed_ids vars ids
      \<and> list_all (\<lambda>name. name \<in> set vars \<or> name \<in> fst ` set ids) ids_to_show)"

section \<open>Auxiliary notions for the proofs\<close>



definition printed :: "error + string option \<Rightarrow> string list" where
  "printed r = (case r of Inr (Some row) \<Rightarrow> [row] | _ \<Rightarrow> [])"

definition row_at :: "string list \<Rightarrow> node dict \<Rightarrow> string list \<Rightarrow> bool list list \<Rightarrow> nat \<Rightarrow> string" where
  "row_at vars ids req vv j =
     (case show_row vars ids req False (vv ! j) of Inr (Some row) \<Rightarrow> row | _ \<Rightarrow> [])"

section \<open>Lexing of comments\<close>

text \<open>
  C8.  The claim: a newline always separates tokens, also when it ends a comment, so
  \<open>ab#c\<close>, newline, \<open>cd\<close> gives the two tokens \<open>ab\<close> and \<open>cd\<close>.  The program
  removes the newline together with the comment, and the two words become the one token
  \<open>abcd\<close>.
\<close>

theorem comment_newline_merges_words:
  "tokenize (''ab#c'' @ [newline] @ ''cd;'') = Inr [''abcd'', '';'']"
  by code_simp

text \<open>
  C9.  The claim: a comment on the last line, with no newline after it, is discarded like
  any other, so lexing succeeds.  The program leaves such a comment in the text, and the
  lexer stops at the \<open>#\<close> with the invalid-character error; nothing is printed.
\<close>

theorem final_comment_without_newline_fails:
  "tokenize ''var x; show x; # done'' = Inl (InvalidCharacter CHR ''#'')
   \<and> compile ''var x; show x; # done'' = ([], Some (InvalidCharacter CHR ''#''))
   \<and> compile (''var x; show x; # done'' @ [newline])
       = ([''# x   x'', ''  0   0'', ''  1   1''], None)"
  by code_simp

section \<open>Splitting\<close>

text \<open>
  C7.  The claim: a final instruction with no \<open>;\<close> after it is still validated and
  executed.  The program drops every token after the last \<open>;\<close>: the final \<open>show\<close>
  below prints nothing, and a final instruction that names an undeclared identifier
  raises nothing.
\<close>

theorem unterminated_final_instruction_dropped:
  "split_instructions [''var'', ''x'', '';'', ''show'', ''x''] = [[''var'', ''x'']]
   \<and> compile (''var x; show x'' @ [newline]) = ([], None)
   \<and> compile (''var x; show undeclared'' @ [newline]) = ([], None)
   \<and> compile (''var x; show x;'' @ [newline]) = ([''# x   x'', ''  0   0'', ''  1   1''], None)"
  by code_simp

section \<open>Validation of instructions\<close>

lemma check_declaration_fresh:
  "fresh_names declared_vars declared_ids names \<Longrightarrow>
   check_declaration declared_vars declared_ids (names @ ts) =
   check_declaration (declared_vars @ names) declared_ids ts"
proof (induction names arbitrary: declared_vars)
  case Nil
  then show ?case by simp
next
  case (Cons t names)
  from Cons.prems have step: "fresh_names (declared_vars @ [t]) declared_ids names"
    by (auto simp: fresh_names_def list_all_iff)
  from Cons.prems have
    "check_declaration declared_vars declared_ids ((t # names) @ ts) =
     check_declaration (declared_vars @ [t]) declared_ids (names @ ts)"
    by (auto simp: fresh_names_def)
  with Cons.IH [OF step] show ?case by simp
qed

text \<open>
  C6.  A declaration \<open>var names t ...\<close> whose names before \<open>t\<close> are all acceptable
  fails at \<open>t\<close> with \<open>DuplicateName\<close> when \<open>t\<close> is already declared (as a variable,
  as an identifier, or earlier in the same declaration); otherwise with \<open>ReservedName\<close>
  when \<open>t\<close> is a reserved word; otherwise with \<open>TooManyVariables\<close> when 64 variables
  are declared already, so that \<open>t\<close> would be the 65th.  A declaration of one or more
  distinct, fresh, non-reserved names that keeps the total at 64 or less succeeds and
  appends the names in order.  The three failures are tested in this order, which
  settles the cases where a name meets more than one of the conditions.
\<close>

theorem declaration_checks:
  assumes "fresh_names declared_vars declared_ids names"
  shows "(t \<in> set declared_vars \<union> set declared_ids \<union> set names \<longrightarrow>
            check_instruction (declared_vars, declared_ids) (''var'' # names @ t # ts)
              = Inl DuplicateName)
       \<and> (t \<notin> set declared_vars \<union> set declared_ids \<union> set names
            \<and> t \<in> set reserved_names \<longrightarrow>
            check_instruction (declared_vars, declared_ids) (''var'' # names @ t # ts)
              = Inl ReservedName)
       \<and> (t \<notin> set declared_vars \<union> set declared_ids \<union> set names
            \<and> t \<notin> set reserved_names
            \<and> length declared_vars + length names = 64 \<longrightarrow>
            check_instruction (declared_vars, declared_ids) (''var'' # names @ t # ts)
              = Inl TooManyVariables)
       \<and> (names \<noteq> [] \<longrightarrow>
            check_instruction (declared_vars, declared_ids) (''var'' # names)
              = Inr (declared_vars @ names, declared_ids))"
proof -
  have shift: "check_declaration declared_vars declared_ids (names @ us) =
     check_declaration (declared_vars @ names) declared_ids us" for us
    using assms by (rule check_declaration_fresh)
  have all: "check_declaration declared_vars declared_ids names = Inr (declared_vars @ names)"
    using shift [of "[]"] by simp
  show ?thesis
    using all by (auto simp: check_instruction_def shift)
qed

theorem declaration_checks_witness:
  "check_instruction ([''a''], [''z'']) [''var'', ''b'', ''z''] = Inl DuplicateName
   \<and> check_instruction ([''a''], [''z'']) [''var'', ''b'', ''show_ones'', ''c'']
       = Inl ReservedName
   \<and> check_instruction ([], [''z''])
        (''var'' # map (\<lambda>n. CHR ''k'' # replicate n CHR ''x'') [0..<64] @ [''y''])
       = Inl TooManyVariables
   \<and> check_instruction ([], [''z''])
        (''var'' # map (\<lambda>n. CHR ''k'' # replicate n CHR ''x'') [0..<64])
       = Inr (map (\<lambda>n. CHR ''k'' # replicate n CHR ''x'') [0..<64], [''z''])"
proof -
  have small: "fresh_names [''a''] [''z''] [''b'']"
    by (simp add: fresh_names_def reserved_names_def)
  have big: "fresh_names [] [''z''] (map (\<lambda>n. CHR ''k'' # replicate n CHR ''x'') [0..<64])"
    by (auto simp: fresh_names_def distinct_map inj_on_def list_all_iff reserved_names_def)
  have len: "length (map (\<lambda>n. CHR ''k'' # replicate n CHR ''x'') [0..<64]) = 64"
    by simp
  have y: "''y'' \<notin> set (map (\<lambda>n. CHR ''k'' # replicate n CHR ''x'') [0..<64])"
    by auto
  show ?thesis
    using declaration_checks [OF small, of "''z''" "[]"]
      declaration_checks [OF small, of "''show_ones''" "[''c'']"]
      declaration_checks [OF big, of "''y''" "[]"] len y
    by (simp add: reserved_names_def)
qed

section \<open>Fail-fast compilation\<close>

lemma check_loop_failure:
  "check_loop st pre = Inr st' \<Longrightarrow> check_instruction st' instr = Inl e \<Longrightarrow>
   check_loop st (pre @ instr # post) = Inl e"
  by (induction pre arbitrary: st) (auto split: sum.splits)

text \<open>
  C5.  When lexing fails, the compiler prints nothing and ends with the lexer's error.
  When some instruction fails validation after the instructions before it have passed,
  whatever those are (valid display instructions included) and whatever follows, the
  compiler prints nothing and ends with that instruction's error.  (Splitting itself has
  no failure.)  In particular \<open>var x; y = x and;\<close> ends with the error of an expression
  that stops on a connective, with nothing printed.
\<close>

theorem compile_fail_fast:
  "(tokenize f = Inl e \<longrightarrow> compile f = ([], Some e))
   \<and> (tokenize f = Inr tokens
        \<and> split_instructions tokens = pre @ instr # post
        \<and> check_loop ([], []) pre = Inr st
        \<and> check_instruction st instr = Inl e \<longrightarrow> compile f = ([], Some e))
   \<and> compile ''var x; y = x and;'' = ([], Some InvalidAssignment)"
proof -
  have lexing: "tokenize f = Inl e \<longrightarrow> compile f = ([], Some e)"
    by (simp add: compile_def)
  have validation: "tokenize f = Inr tokens
        \<and> split_instructions tokens = pre @ instr # post
        \<and> check_loop ([], []) pre = Inr st
        \<and> check_instruction st instr = Inl e \<longrightarrow> compile f = ([], Some e)"
  proof (intro impI, elim conjE)
    assume tok: "tokenize f = Inr tokens"
      and spl: "split_instructions tokens = pre @ instr # post"
      and pre: "check_loop ([], []) pre = Inr st"
      and bad: "check_instruction st instr = Inl e"
    from check_loop_failure [OF pre bad]
    have "check_loop ([], []) (pre @ instr # post) = Inl e" .
    with tok spl show "compile f = ([], Some e)"
      by (simp add: compile_def check_instructions_def)
  qed
  have example: "compile ''var x; y = x and;'' = ([], Some InvalidAssignment)"
    by code_simp
  from lexing validation example show ?thesis by blast
qed

theorem compile_fail_fast_witness:
  "compile ''var x; show x; 2y = x;'' = ([], Some InvalidDigitStart)
   \<and> compile ''var x; show x; y = x and; show y;'' = ([], Some InvalidAssignment)"
proof -
  have lex: "tokenize ''var x; show x; 2y = x;'' = Inl InvalidDigitStart"
    by code_simp
  have tok: "tokenize ''var x; show x; y = x and; show y;'' =
      Inr [''var'', ''x'', '';'', ''show'', ''x'', '';'', ''y'', ''='', ''x'', ''and'', '';'',
           ''show'', ''y'', '';'']"
    by code_simp
  have split: "split_instructions
      [''var'', ''x'', '';'', ''show'', ''x'', '';'', ''y'', ''='', ''x'', ''and'', '';'',
       ''show'', ''y'', '';'']
      = [[''var'', ''x''], [''show'', ''x'']] @ [''y'', ''='', ''x'', ''and''] # [[''show'', ''y'']]"
    by code_simp
  have pre: "check_loop ([], []) [[''var'', ''x''], [''show'', ''x'']] = Inr ([''x''], [])"
    by code_simp
  have bad: "check_instruction ([''x''], []) [''y'', ''='', ''x'', ''and''] = Inl InvalidAssignment"
    by code_simp
  show ?thesis
    using compile_fail_fast [where f = "''var x; show x; 2y = x;''" and e = InvalidDigitStart]
      compile_fail_fast [where f = "''var x; show x; y = x and; show y;''"
        and e = InvalidAssignment and pre = "[[''var'', ''x''], [''show'', ''x'']]"
        and instr = "[''y'', ''='', ''x'', ''and'']" and post = "[[''show'', ''y'']]"
        and st = "([''x''], [])"]
      lex tok split pre bad
    by blast
qed

section \<open>The end-to-end example\<close>

text \<open>
  C3, as stated: the input \<open>var x y; z = x and y; show x y z;\<close> prints the header
  \<open># x y   z\<close> and the four rows \<open>0 0   0\<close>, \<open>0 1   0\<close>, \<open>1 0   0\<close>,
  \<open>1 1   1\<close>.  The program prints something else.
\<close>

theorem example_output_counterexample:
  "compile ''var x y; z = x and y; show x y z;'' \<noteq>
     ([''# x y   z'', ''0 0   0'', ''0 1   0'', ''1 0   0'', ''1 1   1''], None)"
  by code_simp

text \<open>
  C3, amended: the input \<open>var x y; z = x and y; show x y z;\<close> prints exactly five
  lines.  The header lists every declared variable and then every requested name, so
  \<open>x\<close> and \<open>y\<close> appear twice; each row starts with two spaces and has one cell per
  header column.
\<close>

theorem example_output:
  "compile ''var x y; z = x and y; show x y z;'' =
     ([''# x y   x y z'', ''  0 0   0 0 0'', ''  0 1   0 1 0'', ''  1 0   1 0 0'',
       ''  1 1   1 1 1''], None)"
  by code_simp

section \<open>Reachability of the evaluator's error branches\<close>

text \<open>
  C10.  The claim: after validation, evaluation never reaches the branch for an operator
  node with too few children.  The validator accepts a reserved word as the target of an
  assignment (declarations and display instructions reject it), and then reads that word
  as an operand, while the tree builder reads it as a connective.  The program below
  passes validation, prints the header and then stops in the evaluator on a \<open>not\<close> node
  without children.
\<close>

theorem validated_program_reaches_malformed_node:
  "check_instructions
     [[''var'', ''x''], [''not'', ''='', ''x''], [''y'', ''='', ''not''], [''show'', ''y'']]
     = Inr [[''var'', ''x''], [''not'', ''='', ''x''], [''y'', ''='', ''not''], [''show'', ''y'']]
   \<and> build_tree_recursively [''not''] = Inr (Node ''not'' [])
   \<and> compile ''var x; not = x; y = not; show y;'' = ([''# x   y''], Some MalformedNode)"
  by code_simp

section \<open>Validation of expressions\<close>

















section \<open>The truth table\<close>

lemma length_product_bools: "length (product_bools n) = 2 ^ n"
  by (induction n) (simp_all add: product_bools_def)

lemma product_bools_Suc:
  "product_bools (Suc n) = map ((#) False) (product_bools n) @ map ((#) True) (product_bools n)"
  by (simp add: product_bools_def)

lemma binary_digits_Suc:
  "binary_digits (Suc n) i = odd (i div 2 ^ n) # binary_digits n i"
proof -
  have "[0..<Suc n] = 0 # map Suc [0..<n]"
    by (simp add: upt_conv_Cons map_Suc_upt del: upt_Suc)
  then show ?thesis
    by (simp add: binary_digits_def comp_def del: upt_Suc)
qed

lemma odd_div_high:
  assumes "m < n"
  shows "odd ((2 ^ n + j) div 2 ^ m) = odd ((j::nat) div 2 ^ m)"
proof -
  have "(2::nat) ^ n = 2 ^ (n - m) * 2 ^ m"
    using assms by (simp flip: power_add)
  then have "(2 ^ n + j) div 2 ^ m = 2 ^ (n - m) + j div 2 ^ m"
    by (metis div_mult_self3 power_not_zero zero_neq_numeral)
  moreover have "even ((2::nat) ^ (n - m))"
    using assms by simp
  ultimately show ?thesis by simp
qed

lemma binary_digits_high:
  "binary_digits n (2 ^ n + j) = binary_digits n j"
  by (simp add: binary_digits_def odd_div_high)

lemma product_bools_nth:
  "i < 2 ^ n \<Longrightarrow> product_bools n ! i = binary_digits n i"
proof (induction n arbitrary: i)
  case 0
  then show ?case by (simp add: product_bools_def binary_digits_def)
next
  case (Suc n)
  show ?case
  proof (cases "i < 2 ^ n")
    case True
    then have "product_bools (Suc n) ! i = False # product_bools n ! i"
      by (simp add: product_bools_Suc nth_append length_product_bools)
    also have "\<dots> = False # binary_digits n i"
      using Suc.IH [OF True] by simp
    also have "\<dots> = binary_digits (Suc n) i"
      using True by (simp add: binary_digits_Suc)
    finally show ?thesis .
  next
    case False
    define j where "j = i - 2 ^ n"
    with False Suc.prems have j: "j < 2 ^ n" and i: "i = 2 ^ n + j"
      by simp_all
    have "product_bools (Suc n) ! i = True # product_bools n ! j"
      using False j by (simp add: product_bools_Suc nth_append length_product_bools j_def)
    also have "\<dots> = True # binary_digits n j"
      using Suc.IH [OF j] by simp
    also have "\<dots> = binary_digits (Suc n) i"
    proof -
      have "(2 ^ n + j) div 2 ^ n = (1::nat)"
        using j by (simp add: div_add_self1)
      then show ?thesis
        by (simp add: binary_digits_Suc i binary_digits_high)
    qed
    finally show ?thesis .
  qed
qed


lemma dict_set_new: "k \<notin> fst ` set d \<Longrightarrow> dict_set k v d = d @ [(k, v)]"
  by (induction d) auto

lemma fold_dict_set_distinct:
  "distinct (map fst d @ map fst kvs) \<Longrightarrow>
   fold (\<lambda>(k, v) d. dict_set k v d) kvs d = d @ kvs"
proof (induction kvs arbitrary: d)
  case Nil
  then show ?case by simp
next
  case (Cons kv kvs)
  obtain k v where kv: "kv = (k, v)" by (cases kv)
  from Cons.prems kv have new: "k \<notin> fst ` set d" by auto
  from Cons.prems kv have "distinct (map fst (d @ [(k, v)]) @ map fst kvs)" by auto
  from Cons.IH [OF this] show ?case
    by (simp add: kv dict_set_new [OF new])
qed

lemma dict_of_zip:
  "distinct vars \<Longrightarrow> length values = length vars \<Longrightarrow> dict_of (zip vars values) = zip vars values"
  using fold_dict_set_distinct [of "[]" "zip vars values"]
  by (simp add: dict_of_def)

lemma cells_zip:
  "length values = length vars \<Longrightarrow>
   concat (map (\<lambda>(v, b). cell b) (zip vars values)) = concat (map cell values)"
proof -
  assume len: "length values = length vars"
  have "map (\<lambda>(v, b). cell b) (zip vars values) = map cell (map snd (zip vars values))"
    by (simp add: case_prod_unfold)
  with len show ?thesis by simp
qed

lemma show_requested_any:
  "show_requested variables req row valid_row =
     (case show_requested variables req row True of
        Inl e \<Rightarrow> Inl e
      | Inr (row', v) \<Rightarrow>
          Inr (row', valid_row \<or> list_ex (\<lambda>name. map_of variables name = Some True) req))"
proof (induction req arbitrary: row valid_row)
  case Nil
  then show ?case by simp
next
  case (Cons name req)
  show ?case
  proof (cases "map_of variables name")
    case None
    then show ?thesis by simp
  next
    case (Some b)
    then show ?thesis
      using Cons.IH [of "row @ cell b" "valid_row \<or> b"]
      by (auto split: sum.splits)
  qed
qed

lemma show_requested_cells:
  "show_requested variables req row valid_row = Inr (row', v) \<Longrightarrow>
   row' = row @ concat (map (\<lambda>name. cell (map_of variables name = Some True)) req)"
proof (induction req arbitrary: row valid_row)
  case Nil
  then show ?case by simp
next
  case (Cons name req)
  show ?case
  proof (cases "map_of variables name")
    case None
    with Cons.prems show ?thesis by simp
  next
    case (Some b)
    with Cons.prems have
      "show_requested variables req (row @ cell b) (if b \<and> \<not> valid_row then True else valid_row)
         = Inr (row', v)"
      by simp
    from Cons.IH [OF this] Some show ?thesis by simp
  qed
qed

lemma show_row_filter:
  "show_row vars ids req True values =
     (case show_row vars ids req False values of
        Inl e \<Rightarrow> Inl e
      | Inr r \<Rightarrow> Inr (if requested_true vars ids req values then r else None))"
proof (cases "eval_ids ids (dict_of (zip vars values))")
  case (Inl e)
  then show ?thesis by (simp add: show_row_def)
next
  case (Inr variables)
  let ?row = "'' '' @ concat (map (\<lambda>(v, b). cell b) (dict_of (zip vars values))) @ ''  ''"
  show ?thesis
  proof (cases "show_requested variables req ?row True")
    case (Inl e)
    then show ?thesis
      using Inr show_requested_any [of variables req ?row False]
      by (simp add: show_row_def)
  next
    case res: (Inr p)
    obtain row' v where p: "p = (row', v)" by (cases p)
    from res p show_requested_any [of variables req ?row True] have "v = True"
      by simp
    with res p show ?thesis
      using Inr show_requested_any [of variables req ?row False]
      by (simp add: show_row_def requested_true_def)
  qed
qed

lemma show_row_unfiltered:
  assumes "show_row vars ids req False values = Inr r"
  shows "\<exists>variables. eval_ids ids (dict_of (zip vars values)) = Inr variables
     \<and> r = Some ('' '' @ concat (map (\<lambda>(v, b). cell b) (dict_of (zip vars values))) @ ''  ''
                 @ concat (map (\<lambda>name. cell (map_of variables name = Some True)) req))"
proof (cases "eval_ids ids (dict_of (zip vars values))")
  case (Inl e)
  with assms show ?thesis by (simp add: show_row_def)
next
  case (Inr variables)
  let ?row = "'' '' @ concat (map (\<lambda>(v, b). cell b) (dict_of (zip vars values))) @ ''  ''"
  show ?thesis
  proof (cases "show_requested variables req ?row True")
    case (Inl e)
    with assms Inr show ?thesis by (simp add: show_row_def)
  next
    case res: (Inr p)
    obtain row' v where p: "p = (row', v)" by (cases p)
    from res p show_requested_any [of variables req ?row True] have v: "v = True"
      by simp
    from res p show_requested_cells [of variables req ?row True row' v]
    have "row' = ?row @ concat (map (\<lambda>name. cell (map_of variables name = Some True)) req)"
      by simp
    with assms Inr res p v show ?thesis
      by (simp add: show_row_def)
  qed
qed


lemma show_loop_complete:
  "show_loop vars ids req so vv n i out = (out', None) \<Longrightarrow>
   out' = out @ concat (map (\<lambda>j. printed (show_row vars ids req so (vv ! j))) [i..<2 ^ n])
   \<and> (\<forall>j. i \<le> j \<and> j < 2 ^ n \<longrightarrow> (\<exists>r. show_row vars ids req so (vv ! j) = Inr r))"
proof (induction vars ids req so vv n i out rule: show_loop.induct)
  case (1 vars ids req so vv n i out)
  show ?case
  proof (cases "i < 2 ^ n")
    case False
    with "1.prems" show ?thesis
      by (auto simp: show_loop.simps [of vars ids req so vv n i out])
  next
    case True
    then have upt: "[i..<2 ^ n] = i # [Suc i..<2 ^ n]"
      by (rule upt_conv_Cons)
    show ?thesis
    proof (cases "show_row vars ids req so (vv ! i)")
      case (Inl e)
      with True "1.prems" show ?thesis
        by (simp add: show_loop.simps [of vars ids req so vv n i out])
    next
      case (Inr r)
      show ?thesis
      proof (cases r)
        case None
        with True Inr "1.prems"
        have next_call: "show_loop vars ids req so vv n (i + 1) out = (out', None)"
          by (simp add: show_loop.simps [of vars ids req so vv n i out])
        from "1.IH"(1) [OF True _ _ next_call] Inr None
        have ih: "out' = out @ concat (map (\<lambda>j. printed (show_row vars ids req so (vv ! j))) [Suc i..<2 ^ n])"
          and rest: "\<forall>j. Suc i \<le> j \<and> j < 2 ^ n \<longrightarrow> (\<exists>r. show_row vars ids req so (vv ! j) = Inr r)"
          by simp_all
        have "\<exists>r. show_row vars ids req so (vv ! j) = Inr r" if "i \<le> j" "j < 2 ^ n" for j
          using that rest Inr by (cases "j = i") auto
        with ih Inr None upt show ?thesis
          by (simp add: printed_def)
      next
        case (Some row)
        with True Inr "1.prems"
        have next_call: "show_loop vars ids req so vv n (i + 1) (out @ [row]) = (out', None)"
          by (simp add: show_loop.simps [of vars ids req so vv n i out])
        from "1.IH"(2) [OF True _ _ next_call] Inr Some
        have ih: "out' = (out @ [row]) @ concat (map (\<lambda>j. printed (show_row vars ids req so (vv ! j))) [Suc i..<2 ^ n])"
          and rest: "\<forall>j. Suc i \<le> j \<and> j < 2 ^ n \<longrightarrow> (\<exists>r. show_row vars ids req so (vv ! j) = Inr r)"
          by simp_all
        have "\<exists>r. show_row vars ids req so (vv ! j) = Inr r" if "i \<le> j" "j < 2 ^ n" for j
          using that rest Inr by (cases "j = i") auto
        with ih Inr Some upt show ?thesis
          by (simp add: printed_def)
      qed
    qed
  qed
qed

lemma show_loop_total:
  "\<forall>j. i \<le> j \<and> j < 2 ^ n \<longrightarrow> (\<exists>r. show_row vars ids req so (vv ! j) = Inr r) \<Longrightarrow>
   show_loop vars ids req so vv n i out =
     (out @ concat (map (\<lambda>j. printed (show_row vars ids req so (vv ! j))) [i..<2 ^ n]), None)"
proof (induction vars ids req so vv n i out rule: show_loop.induct)
  case (1 vars ids req so vv n i out)
  show ?case
  proof (cases "i < 2 ^ n")
    case False
    then show ?thesis
      by (simp add: show_loop.simps [of vars ids req so vv n i out])
  next
    case True
    then have upt: "[i..<2 ^ n] = i # [Suc i..<2 ^ n]"
      by (rule upt_conv_Cons)
    from "1.prems" True obtain r where r: "show_row vars ids req so (vv ! i) = Inr r"
      by blast
    from "1.prems"
    have rest: "\<forall>j. i + 1 \<le> j \<and> j < 2 ^ n \<longrightarrow> (\<exists>r. show_row vars ids req so (vv ! j) = Inr r)"
      by simp
    show ?thesis
    proof (cases r)
      case None
      from "1.IH"(1) [OF True _ _ rest] r None
      have "show_loop vars ids req so vv n (i + 1) out =
        (out @ concat (map (\<lambda>j. printed (show_row vars ids req so (vv ! j))) [Suc i..<2 ^ n]), None)"
        by simp
      with True r None upt show ?thesis
        by (simp add: show_loop.simps [of vars ids req so vv n i out] printed_def)
    next
      case (Some row)
      from "1.IH"(2) [OF True _ _ rest] r Some
      have "show_loop vars ids req so vv n (i + 1) (out @ [row]) =
        ((out @ [row]) @ concat (map (\<lambda>j. printed (show_row vars ids req so (vv ! j))) [Suc i..<2 ^ n]), None)"
        by simp
      with True r Some upt show ?thesis
        by (simp add: show_loop.simps [of vars ids req so vv n i out] printed_def)
    qed
  qed
qed

lemma concat_map_if:
  "\<forall>j \<in> set xs. g j = (if Q j then [f j] else []) \<Longrightarrow>
   concat (map g xs) = map f (filter Q xs)"
  by (induction xs) auto

lemma filter_zip_same:
  "map fst (filter (\<lambda>(a, b). P b) (zip (map f xs) (map g xs))) = map f (filter (\<lambda>j. P (g j)) xs)"
  by (induction xs) auto

lemma eval_children:
  "\<forall>c \<in> set cs. \<exists>b. eval_node variables c = Inr b \<Longrightarrow>
   (\<exists>b. eval_and variables cs = Inr b) \<and> (\<exists>b. eval_or variables cs = Inr b)"
proof (induction cs)
  case Nil
  show ?case by auto
next
  case (Cons c cs)
  from Cons.prems obtain b where b: "eval_node variables c = Inr b" by auto
  from Cons.prems Cons.IH
  have "(\<exists>b. eval_and variables cs = Inr b) \<and> (\<exists>b. eval_or variables cs = Inr b)"
    by simp
  with b show ?case by auto
qed

lemma eval_well_formed:
  "well_formed_node bound t \<Longrightarrow> set bound \<subseteq> dom (map_of variables) \<Longrightarrow>
     \<exists>b. eval_node variables t = Inr b"
proof (induction t)
  case (Node v cs)
  have children: "\<exists>b. eval_node variables c = Inr b"
    if "c \<in> set cs" "well_formed_node bound c" for c
    using Node.IH [OF that] Node.prems(2) .
  consider (binary) "v = ''and'' \<or> v = ''or''"
    | (unary) "v = ''not''"
    | (literal) "v = ''True'' \<or> v = ''False''"
    | (name) "v \<noteq> ''and''" "v \<noteq> ''or''" "v \<noteq> ''not''" "v \<noteq> ''True''" "v \<noteq> ''False''"
    by blast
  then show ?case
  proof cases
    case binary
    with Node.prems(1) have len: "\<not> length cs < 2"
      and all: "\<forall>c \<in> set cs. well_formed_node bound c"
      by (simp_all add: list_all_iff)
    from all children have "\<forall>c \<in> set cs. \<exists>b. eval_node variables c = Inr b"
      by blast
    from eval_children [OF this] binary len show ?thesis
      by (elim disjE) auto
  next
    case unary
    with Node.prems(1) obtain c rest where cs: "cs = c # rest" and c: "well_formed_node bound c"
      by (cases cs) simp_all
    from children [of c] cs c obtain b where "eval_node variables c = Inr b"
      by auto
    with unary cs show ?thesis by auto
  next
    case literal
    then show ?thesis by (elim disjE) auto
  next
    case name
    with Node.prems(1) have "v \<in> set bound" by simp
    with Node.prems(2) obtain b where "map_of variables v = Some b" by blast
    with name show ?thesis by auto
  qed
qed

lemma map_of_dict_set: "map_of (dict_set k v d) = (map_of d)(k \<mapsto> v)"
  by (induction d) (auto simp: fun_upd_twist)

lemma dom_dict_set: "dom (map_of (dict_set k v d)) = insert k (dom (map_of d))"
  by (simp add: map_of_dict_set)

lemma dom_fold_dict_set:
  "dom (map_of (fold (\<lambda>(k, v) d. dict_set k v d) kvs d)) = dom (map_of d) \<union> fst ` set kvs"
proof (induction kvs arbitrary: d)
  case Nil
  then show ?case by simp
next
  case (Cons kv kvs)
  obtain k v where kv: "kv = (k, v)" by (cases kv)
  from Cons.IH [of "dict_set k v d"] show ?case
    by (simp add: kv dom_dict_set)
qed

lemma dom_dict_of_zip:
  assumes "length values = length vars"
  shows "dom (map_of (dict_of (zip vars values))) = set vars"
proof -
  have "fst ` set (zip vars values) = set (map fst (zip vars values))"
    by simp
  also have "\<dots> = set vars"
    using assms by (simp only: map_fst_zip)
  finally show ?thesis
    using dom_fold_dict_set [of "zip vars values" "[]"]
    by (simp add: dict_of_def)
qed

lemma eval_ids_well_formed:
  "well_formed_ids bound ids \<Longrightarrow> set bound = dom (map_of variables) \<Longrightarrow>
   \<exists>variables'. eval_ids ids variables = Inr variables'
      \<and> dom (map_of variables') = dom (map_of variables) \<union> fst ` set ids"
proof (induction ids arbitrary: bound variables)
  case Nil
  then show ?case by simp
next
  case (Cons entry ids)
  obtain name tree where entry: "entry = (name, tree)" by (cases entry)
  from Cons.prems entry have tree: "well_formed_node bound tree"
    and rest: "well_formed_ids (bound @ [name]) ids"
    by simp_all
  from Cons.prems(2) have "set bound \<subseteq> dom (map_of variables)" by simp
  from eval_well_formed [OF tree this]
  obtain b where b: "eval_node variables tree = Inr b" by blast
  have "set (bound @ [name]) = dom (map_of (dict_set name b variables))"
    using Cons.prems(2) by (simp add: dom_dict_set)
  from Cons.IH [OF rest this] b entry show ?case
    by (auto simp: dom_dict_set)
qed

lemma show_requested_bound:
  "set req \<subseteq> dom (map_of variables) \<Longrightarrow> \<exists>r. show_requested variables req row valid_row = Inr r"
  by (induction req arbitrary: row valid_row) auto

lemma show_row_well_formed:
  assumes "well_formed_table vars ids req" "length values = length vars"
  shows "\<exists>r. show_row vars ids req so values = Inr r"
proof -
  let ?d = "dict_of (zip vars values)"
  have dom: "set vars = dom (map_of ?d)"
    using assms(2) by (simp add: dom_dict_of_zip)
  from assms(1) have "well_formed_ids vars ids"
    by (simp add: well_formed_table_def)
  from eval_ids_well_formed [OF this dom]
  obtain variables' where ev: "eval_ids ids ?d = Inr variables'"
    and dom': "dom (map_of variables') = dom (map_of ?d) \<union> fst ` set ids"
    by blast
  from assms(1) dom dom' have "set req \<subseteq> dom (map_of variables')"
    by (auto simp: well_formed_table_def list_all_iff)
  from show_requested_bound [OF this]
  obtain r where "show_requested variables' req
      ('' '' @ concat (map (\<lambda>(v, b). cell b) ?d) @ ''  '') (\<not> so) = Inr r"
    by blast
  with ev show ?thesis
    by (cases r) (simp add: show_row_def)
qed

lemma length_product_bools_nth:
  "i < 2 ^ n \<Longrightarrow> length (product_bools n ! i) = n"
  by (simp add: product_bools_nth binary_digits_def)

lemma show_table_well_formed:
  assumes "well_formed_table vars ids req"
  shows "\<exists>out'. show_table vars ids req so out = (out', None)"
proof -
  have "\<forall>j. 0 \<le> j \<and> j < 2 ^ length vars \<longrightarrow>
      (\<exists>r. show_row vars ids req so (product_bools (length vars) ! j) = Inr r)"
    using show_row_well_formed [OF assms] by (simp add: length_product_bools_nth)
  from show_loop_total [OF this] show ?thesis
    by (simp add: show_table_def)
qed

lemma show_table_unfiltered:
  assumes "show_table vars ids req False out = (out', None)"
  defines "vv \<equiv> product_bools (length vars)"
  shows "out' = out @ header vars req # map (row_at vars ids req vv) [0..<2 ^ length vars]"
    and "\<forall>j::nat. j < 2 ^ length vars \<longrightarrow>
           show_row vars ids req False (vv ! j) = Inr (Some (row_at vars ids req vv j))"
proof -
  from assms(1) have loop:
    "show_loop vars ids req False vv (length vars) 0 (out @ [header vars req]) = (out', None)"
    by (simp add: show_table_def vv_def)
  note complete = show_loop_complete [OF loop]
  show rows: "\<forall>j::nat. j < 2 ^ length vars \<longrightarrow>
      show_row vars ids req False (vv ! j) = Inr (Some (row_at vars ids req vv j))"
  proof (intro allI impI)
    fix j :: nat
    assume "j < 2 ^ length vars"
    with complete obtain r where r: "show_row vars ids req False (vv ! j) = Inr r"
      by auto
    from show_row_unfiltered [OF r] obtain row where "r = Some row" by blast
    with r show "show_row vars ids req False (vv ! j) = Inr (Some (row_at vars ids req vv j))"
      by (simp add: row_at_def)
  qed
  have "\<forall>j \<in> set [0..<2 ^ length vars].
      printed (show_row vars ids req False (vv ! j))
        = (if True then [row_at vars ids req vv j] else [])"
    using rows by (simp add: printed_def)
  from concat_map_if [OF this]
  have "concat (map (\<lambda>j. printed (show_row vars ids req False (vv ! j))) [0..<2 ^ length vars])
      = map (row_at vars ids req vv) [0..<2 ^ length vars]"
    by simp
  with complete show "out' = out @ header vars req # map (row_at vars ids req vv) [0..<2 ^ length vars]"
    by simp
qed

text \<open>
  C1.  An unfiltered \<open>show\<close> over a well-formed table runs to its end.  Whenever it runs
  to its end with \<open>n\<close> declared variables, it prints the header and then exactly
  \<open>2 ^ n\<close> rows.  Row \<open>i\<close> is the row of the \<open>i\<close>-th tuple of the product, and that
  tuple is the \<open>n\<close>-digit binary numeral of \<open>i\<close> with \<open>False\<close> for 0 and \<open>True\<close>
  for 1: the lexicographic order in which the last declared variable varies fastest.
  With distinct variable names (which validation ensures) the row shows these digits, one
  cell per variable, and then one cell for every requested name.
\<close>

theorem show_prints_all_rows:
  "(well_formed_table vars ids ids_to_show \<longrightarrow>
      (\<exists>lines. show_table vars ids ids_to_show False out = (lines, None)))
   \<and> (show_table vars ids ids_to_show False out = (out', None) \<longrightarrow>
      (\<exists>rows. out' = out @ header vars ids_to_show # rows
     \<and> length rows = 2 ^ length vars
     \<and> (\<forall>i::nat. i < 2 ^ length vars \<longrightarrow>
          product_bools (length vars) ! i = binary_digits (length vars) i
          \<and> show_row vars ids ids_to_show False (binary_digits (length vars) i)
              = Inr (Some (rows ! i))
          \<and> (distinct vars \<longrightarrow>
               (\<exists>variables.
                  eval_ids ids (zip vars (binary_digits (length vars) i)) = Inr variables
                  \<and> rows ! i =
                      '' '' @ concat (map cell (binary_digits (length vars) i)) @ ''  ''
                      @ concat (map (\<lambda>name. cell (map_of variables name = Some True))
                                  ids_to_show))))))"
proof (intro conjI impI)
  assume "well_formed_table vars ids ids_to_show"
  then show "\<exists>lines. show_table vars ids ids_to_show False out = (lines, None)"
    by (rule show_table_well_formed)
next
  assume assms: "show_table vars ids ids_to_show False out = (out', None)"
  show "\<exists>rows. out' = out @ header vars ids_to_show # rows
     \<and> length rows = 2 ^ length vars
     \<and> (\<forall>i::nat. i < 2 ^ length vars \<longrightarrow>
          product_bools (length vars) ! i = binary_digits (length vars) i
          \<and> show_row vars ids ids_to_show False (binary_digits (length vars) i)
              = Inr (Some (rows ! i))
          \<and> (distinct vars \<longrightarrow>
               (\<exists>variables.
                  eval_ids ids (zip vars (binary_digits (length vars) i)) = Inr variables
                  \<and> rows ! i =
                      '' '' @ concat (map cell (binary_digits (length vars) i)) @ ''  ''
                      @ concat (map (\<lambda>name. cell (map_of variables name = Some True))
                                  ids_to_show))))"
  proof -
    let ?n = "length vars"
    let ?vv = "product_bools ?n"
    let ?rows = "map (row_at vars ids ids_to_show ?vv) [0..<2 ^ ?n]"
    note table = show_table_unfiltered [OF assms]
    have each: "product_bools ?n ! i = binary_digits ?n i
            \<and> show_row vars ids ids_to_show False (binary_digits ?n i) = Inr (Some (?rows ! i))
            \<and> (distinct vars \<longrightarrow>
                 (\<exists>variables.
                    eval_ids ids (zip vars (binary_digits ?n i)) = Inr variables
                    \<and> ?rows ! i =
                        '' '' @ concat (map cell (binary_digits ?n i)) @ ''  ''
                        @ concat (map (\<lambda>name. cell (map_of variables name = Some True))
                                    ids_to_show)))"
      if i: "i < 2 ^ ?n" for i :: nat
    proof -
      have digits: "?vv ! i = binary_digits ?n i"
        using i by (rule product_bools_nth)
      have len: "length (binary_digits ?n i) = ?n"
        by (simp add: binary_digits_def)
      from table(2) i
      have "show_row vars ids ids_to_show False (?vv ! i)
          = Inr (Some (row_at vars ids ids_to_show ?vv i))"
        by blast
      moreover have "?rows ! i = row_at vars ids ids_to_show ?vv i"
        using i by simp
      ultimately
      have row: "show_row vars ids ids_to_show False (binary_digits ?n i) = Inr (Some (?rows ! i))"
        by (simp only: digits)
      have "\<exists>variables.
          eval_ids ids (zip vars (binary_digits ?n i)) = Inr variables
          \<and> ?rows ! i = '' '' @ concat (map cell (binary_digits ?n i)) @ ''  ''
              @ concat (map (\<lambda>name. cell (map_of variables name = Some True)) ids_to_show)"
        if d: "distinct vars"
        using show_row_unfiltered [OF row] dict_of_zip [OF d len] cells_zip [OF len]
        by simp
      with digits row show ?thesis by blast
    qed
    have "out' = out @ header vars ids_to_show # ?rows"
      using table(1) .
    moreover have "length ?rows = 2 ^ ?n" by simp
    ultimately show ?thesis using each by blast
  qed
qed

theorem show_prints_all_rows_witness:
  "well_formed_table [''x'', ''y''] [(''z'', Node ''and'' [Node ''x'' [], Node ''y'' []])] [''z'']
   \<and> show_table [''x'', ''y''] [(''z'', Node ''and'' [Node ''x'' [], Node ''y'' []])] [''z''] False []
     = ([''# x y   z'', ''  0 0   0'', ''  0 1   0'', ''  1 0   0'', ''  1 1   1''], None)
   \<and> (\<exists>rows. [''# x y   z'', ''  0 0   0'', ''  0 1   0'', ''  1 0   0'', ''  1 1   1''] = [] @ header [''x'', ''y''] [''z''] # rows
     \<and> length rows = 2 ^ length [''x'', ''y'']
     \<and> (\<forall>i::nat. i < 2 ^ length [''x'', ''y''] \<longrightarrow>
          product_bools (length [''x'', ''y'']) ! i = binary_digits (length [''x'', ''y'']) i
          \<and> show_row [''x'', ''y''] [(''z'', Node ''and'' [Node ''x'' [], Node ''y'' []])] [''z''] False (binary_digits (length [''x'', ''y'']) i)
              = Inr (Some (rows ! i))
          \<and> (distinct [''x'', ''y''] \<longrightarrow>
               (\<exists>variables.
                  eval_ids [(''z'', Node ''and'' [Node ''x'' [], Node ''y'' []])] (zip [''x'', ''y''] (binary_digits (length [''x'', ''y'']) i)) = Inr variables
                  \<and> rows ! i =
                      '' '' @ concat (map cell (binary_digits (length [''x'', ''y'']) i)) @ ''  ''
                      @ concat (map (\<lambda>name. cell (map_of variables name = Some True))
                                  [''z''])))))"
proof (intro conjI)
  show "well_formed_table [''x'', ''y''] [(''z'', Node ''and'' [Node ''x'' [], Node ''y'' []])] [''z'']"
    by (simp add: well_formed_table_def)
  show run: "show_table [''x'', ''y''] [(''z'', Node ''and'' [Node ''x'' [], Node ''y'' []])] [''z''] False []
     = ([''# x y   z'', ''  0 0   0'', ''  0 1   0'', ''  1 0   0'', ''  1 1   1''], None)"
    by code_simp
  show "(\<exists>rows. [''# x y   z'', ''  0 0   0'', ''  0 1   0'', ''  1 0   0'', ''  1 1   1''] = [] @ header [''x'', ''y''] [''z''] # rows
     \<and> length rows = 2 ^ length [''x'', ''y'']
     \<and> (\<forall>i::nat. i < 2 ^ length [''x'', ''y''] \<longrightarrow>
          product_bools (length [''x'', ''y'']) ! i = binary_digits (length [''x'', ''y'']) i
          \<and> show_row [''x'', ''y''] [(''z'', Node ''and'' [Node ''x'' [], Node ''y'' []])] [''z''] False (binary_digits (length [''x'', ''y'']) i)
              = Inr (Some (rows ! i))
          \<and> (distinct [''x'', ''y''] \<longrightarrow>
               (\<exists>variables.
                  eval_ids [(''z'', Node ''and'' [Node ''x'' [], Node ''y'' []])] (zip [''x'', ''y''] (binary_digits (length [''x'', ''y'']) i)) = Inr variables
                  \<and> rows ! i =
                      '' '' @ concat (map cell (binary_digits (length [''x'', ''y'']) i)) @ ''  ''
                      @ concat (map (\<lambda>name. cell (map_of variables name = Some True))
                                  [''z''])))))"
    using show_prints_all_rows run by blast
qed

text \<open>
  C4.  When the unfiltered \<open>show\<close> of a display list runs to its end, \<open>show_ones\<close> of
  the same list prints the same header and exactly those of its rows, in the same order,
  on which at least one requested name evaluates to true; the rows on which every
  requested name is false are the ones left out.
\<close>

theorem show_ones_filters_rows:
  assumes "show_table vars ids ids_to_show False out = (out', None)"
  shows "\<exists>rows. out' = out @ header vars ids_to_show # rows
     \<and> length rows = 2 ^ length vars
     \<and> show_table vars ids ids_to_show True out =
         (out @ header vars ids_to_show #
            map fst (filter (\<lambda>(row, values). requested_true vars ids ids_to_show values)
                       (zip rows (product_bools (length vars)))),
          None)"
proof -
  let ?n = "length vars"
  let ?vv = "product_bools ?n"
  let ?f = "row_at vars ids ids_to_show ?vv"
  let ?rows = "map ?f [0..<2 ^ ?n]"
  let ?Q = "\<lambda>j. requested_true vars ids ids_to_show (?vv ! j)"
  note table = show_table_unfiltered [OF assms]
  have filtered: "show_row vars ids ids_to_show True (?vv ! j)
      = Inr (if ?Q j then Some (?f j) else None)" if "j < 2 ^ ?n" for j :: nat
    using table(2) that by (simp add: show_row_filter)
  then have "\<forall>j. 0 \<le> j \<and> j < 2 ^ ?n \<longrightarrow>
      (\<exists>r. show_row vars ids ids_to_show True (?vv ! j) = Inr r)"
    by blast
  from show_loop_total [OF this]
  have run: "show_table vars ids ids_to_show True out =
      ((out @ [header vars ids_to_show])
        @ concat (map (\<lambda>j. printed (show_row vars ids ids_to_show True (?vv ! j))) [0..<2 ^ ?n]),
       None)"
    by (simp add: show_table_def)
  have "\<forall>j \<in> set [0..<2 ^ ?n].
      printed (show_row vars ids ids_to_show True (?vv ! j)) = (if ?Q j then [?f j] else [])"
    using filtered by (simp add: printed_def)
  from concat_map_if [OF this]
  have kept: "concat (map (\<lambda>j. printed (show_row vars ids ids_to_show True (?vv ! j))) [0..<2 ^ ?n])
      = map ?f (filter ?Q [0..<2 ^ ?n])" .
  have "?vv = map ((!) ?vv) [0..<2 ^ ?n]"
    using map_nth [of ?vv] by (simp add: length_product_bools)
  then have "zip ?rows ?vv = zip ?rows (map ((!) ?vv) [0..<2 ^ ?n])"
    by simp
  then have chosen: "map fst (filter (\<lambda>(row, values). requested_true vars ids ids_to_show values)
                 (zip ?rows ?vv)) = map ?f (filter ?Q [0..<2 ^ ?n])"
    by (simp only: filter_zip_same)
  from run kept chosen have "show_table vars ids ids_to_show True out =
      (out @ header vars ids_to_show #
         map fst (filter (\<lambda>(row, values). requested_true vars ids ids_to_show values)
                    (zip ?rows ?vv)), None)"
    by simp
  moreover have "out' = out @ header vars ids_to_show # ?rows"
    using table(1) .
  moreover have "length ?rows = 2 ^ ?n" by simp
  ultimately show ?thesis by blast
qed

theorem show_ones_filters_rows_witness:
  "show_table [''a''] [(''b'', Node ''not'' [Node ''a'' []])] [''b''] False []
     = ([''# a   b'', ''  0   1'', ''  1   0''], None)
   \<and> show_table [''a''] [(''b'', Node ''not'' [Node ''a'' []])] [''b''] True []
     = ([''# a   b'', ''  0   1''], None)
   \<and> (\<exists>rows. [''# a   b'', ''  0   1'', ''  1   0''] = [] @ header [''a''] [''b''] # rows
     \<and> length rows = 2 ^ length [''a'']
     \<and> show_table [''a''] [(''b'', Node ''not'' [Node ''a'' []])] [''b''] True [] =
         ([] @ header [''a''] [''b''] #
            map fst (filter (\<lambda>(row, values). requested_true [''a''] [(''b'', Node ''not'' [Node ''a'' []])] [''b''] values)
                       (zip rows (product_bools (length [''a''])))),
          None))"
proof (intro conjI)
  show run: "show_table [''a''] [(''b'', Node ''not'' [Node ''a'' []])] [''b''] False []
     = ([''# a   b'', ''  0   1'', ''  1   0''], None)"
    by code_simp
  show "show_table [''a''] [(''b'', Node ''not'' [Node ''a'' []])] [''b''] True []
     = ([''# a   b'', ''  0   1''], None)"
    by code_simp
  show "(\<exists>rows. [''# a   b'', ''  0   1'', ''  1   0''] = [] @ header [''a''] [''b''] # rows
     \<and> length rows = 2 ^ length [''a'']
     \<and> show_table [''a''] [(''b'', Node ''not'' [Node ''a'' []])] [''b''] True [] =
         ([] @ header [''a''] [''b''] #
            map fst (filter (\<lambda>(row, values). requested_true [''a''] [(''b'', Node ''not'' [Node ''a'' []])] [''b''] values)
                       (zip rows (product_bools (length [''a''])))),
          None))"
    by (rule show_ones_filters_rows [OF run])
qed

end
